theory Spec2Isabelle
  imports Main "HOL-Library.Word" "HOL-Library.Sublist" "HOL-Library.Multiset"
begin

section \<open>Real-time MJPEG relay with OCR sampling: model of \<open>oldversion.py\<close>\<close>

text \<open>
  The program has one producer thread (\<open>mjpeg_frame_reader\<close>), which cuts JPEG frames out
  of the byte stream of an ffmpeg pipe and puts them into a bounded \<open>queue.Queue\<close>, and
  several consumer threads (the HTTP stream handler and the OCR thread) that take frames
  from that queue. Every function of the source is embedded as a function on explicit
  state. What a thread observes from outside (the chunks returned by \<open>read\<close>, the moment
  \<open>stop_event\<close> is set, frames taken by other threads, a client that disconnects) is an
  explicit input of the model.
\<close>

subsection \<open>Constants\<close>

type_synonym byte = "8 word"
type_synonym bytes = "byte list"
type_synonym frame = "byte list"

definition FRAME_BUFFER_SIZE :: nat where
  "FRAME_BUFFER_SIZE = 20"

definition OCR_FRAME_INTERVAL :: nat where
  "OCR_FRAME_INTERVAL = 30"

definition MJPEG_BOUNDARY :: string where
  "MJPEG_BOUNDARY = ''--FRAME--''"

text \<open>The two markers the reader searches for: \<open>b'\xff\xd8'\<close> and \<open>b'\xff\xd9'\<close>.\<close>

definition SOI :: bytes where
  "SOI = [0xFF, 0xD8]"

definition EOI :: bytes where
  "EOI = [0xFF, 0xD9]"

datatype py_exception = QueueFull | QueueEmpty | BrokenPipeError | UnicodeEncodeError | OtherException

subsection \<open>Python's \<open>bytes.find\<close> and slices\<close>

text \<open>\<open>data.find(sub)\<close>: the lowest index at which \<open>sub\<close> occurs in \<open>data\<close>, or \<open>-1\<close>.\<close>

fun bytes_find :: "'a list \<Rightarrow> 'a list \<Rightarrow> int" where
  "bytes_find [] sub = (if sub = [] then 0 else - 1)"
| "bytes_find (x # xs) sub =
     (if prefix sub (x # xs) then 0
      else (let r = bytes_find xs sub in if r = - 1 then - 1 else r + 1))"

text \<open>
  Slice bounds as Python normalises them: a negative bound counts from the end, and
  every bound is clamped to the length.
\<close>

definition slice_bound :: "'a list \<Rightarrow> int \<Rightarrow> nat" where
  "slice_bound xs i =
     (if i < 0 then nat (max 0 (int (length xs) + i)) else min (nat i) (length xs))"

definition py_slice :: "'a list \<Rightarrow> int \<Rightarrow> int \<Rightarrow> 'a list" where
  "py_slice xs i j = take (slice_bound xs j - slice_bound xs i) (drop (slice_bound xs i) xs)"

definition py_slice_from :: "'a list \<Rightarrow> int \<Rightarrow> 'a list" where
  "py_slice_from xs i = drop (slice_bound xs i) xs"

subsection \<open>The bounded frame queue\<close>

text \<open>
  \<open>frame_queue = queue.Queue(maxsize=FRAME_BUFFER_SIZE)\<close>. The queue is the list of its
  entries, oldest first (the entries are frames; the operations do not look at them). Each queue operation is atomic (the queue holds its mutex for the
  whole operation), so what other threads do shows only between two operations, or while
  a timed \<open>put\<close> sleeps on a full queue.

  \<open>queue_put q frame w\<close> is \<open>put(frame, timeout=0.1)\<close>; \<open>w\<close> is the number of frames
  that consumers take during the wait on a full queue (\<open>0\<close>: none before the timeout, and
  \<open>queue.Full\<close> is raised).
\<close>

definition queue_put :: "'a list \<Rightarrow> 'a \<Rightarrow> nat \<Rightarrow> py_exception + 'a list" where
  "queue_put q frame w =
     (if length q < FRAME_BUFFER_SIZE then Inr (q @ [frame])
      else if w = 0 then Inl QueueFull
      else Inr (drop w q @ [frame]))"

definition queue_put_nowait :: "'a list \<Rightarrow> 'a \<Rightarrow> py_exception + 'a list" where
  "queue_put_nowait q frame =
     (if length q < FRAME_BUFFER_SIZE then Inr (q @ [frame]) else Inl QueueFull)"

definition queue_get_nowait :: "'a list \<Rightarrow> py_exception + ('a \<times> 'a list)" where
  "queue_get_nowait q = (case q of [] \<Rightarrow> Inl QueueEmpty | f # q' \<Rightarrow> Inr (f, q'))"

text \<open>
  \<open>get(timeout=0.5)\<close> of a consumer: the oldest frame, or \<open>queue.Empty\<close> when the queue
  stays empty for the whole timeout.
\<close>

definition queue_get :: "'a list \<Rightarrow> py_exception + ('a \<times> 'a list)" where
  "queue_get q = (case q of [] \<Rightarrow> Inl QueueEmpty | f # q' \<Rightarrow> Inr (f, q'))"

text \<open>
  What the consumers do around one run of the producer's put path (lines 54 to 63): the
  number of frames they take before the \<open>put\<close> call, during its wait, between the
  \<open>queue.Full\<close> and \<open>get_nowait\<close>, and between \<open>get_nowait\<close> and \<open>put_nowait\<close>.
\<close>

record interference =
  before_put :: nat
  during_wait :: nat
  before_get :: nat
  before_put_nowait :: nat

definition no_interference :: interference where
  "no_interference =
     \<lparr>before_put = 0, during_wait = 0, before_get = 0, before_put_nowait = 0\<rparr>"

text \<open>
  Lines 54 to 63. The result is the queue afterwards, and the exception that leaves the
  block, if any: \<open>queue.Empty\<close> is caught (\<open>pass\<close>), a \<open>queue.Full\<close> of \<open>put_nowait\<close> is not.
\<close>

definition put_path :: "interference \<Rightarrow> 'a list \<Rightarrow> 'a \<Rightarrow> py_exception option \<times> 'a list" where
  "put_path i q frame =
     (let q0 = drop (before_put i) q in
      case queue_put q0 frame (during_wait i) of
        Inr q' \<Rightarrow> (None, q')
      | Inl _ \<Rightarrow>
          (let q1 = drop (before_get i) q0 in
           case queue_get_nowait q1 of
             Inl _ \<Rightarrow> (None, q1)
           | Inr (oldest, q2) \<Rightarrow>
               (let q3 = drop (before_put_nowait i) q2 in
                case queue_put_nowait q3 frame of
                  Inl e \<Rightarrow> (Some e, q3)
                | Inr q4 \<Rightarrow> (None, q4))))"

subsection \<open>The frame reader\<close>

text \<open>
  The state of \<open>mjpeg_frame_reader\<close>: its accumulation buffer \<open>jpeg_data\<close>, the shared
  queue, and the frames it has passed to the put path so far, in order (\<open>submitted\<close> is
  a history of the calls, not a variable of the source).
\<close>

record reader_state =
  jpeg_data :: bytes
  frame_queue :: "frame list"
  submitted :: "frame list"

text \<open>
  The inner \<open>while\<close> loop (lines 49 to 68). The source computes \<open>start_index\<close> and
  \<open>end_index\<close> before the loop and again at the end of its body; the model computes them
  at the loop head, from the same \<open>jpeg_data\<close>. The interference at a put is looked up by
  the number of earlier puts. The flag returned is true when an exception left the loop.
\<close>

function scan_loop :: "(nat \<Rightarrow> interference) \<Rightarrow> reader_state \<Rightarrow> bool \<times> reader_state" where
  "scan_loop sched s =
     (let start_index = bytes_find (jpeg_data s) SOI;
          end_index = bytes_find (jpeg_data s) EOI
      in if start_index \<noteq> - 1 \<and> end_index \<noteq> - 1 \<and> start_index < end_index then
           (let frame = py_slice (jpeg_data s) start_index (end_index + 2);
                (exn, q') = put_path (sched (length (submitted s))) (frame_queue s) frame;
                s' = s\<lparr>frame_queue := q', submitted := submitted s @ [frame]\<rparr>
            in case exn of
                 Some e \<Rightarrow> (True, s')
               | None \<Rightarrow> scan_loop sched (s'\<lparr>jpeg_data := py_slice_from (jpeg_data s) (end_index + 2)\<rparr>))
         else (False, s))"
  by pat_completeness auto

lemma bytes_find_bounds:
  "bytes_find xs sub \<noteq> - 1 \<Longrightarrow>
     0 \<le> bytes_find xs sub \<and> nat (bytes_find xs sub) + length sub \<le> length xs"
proof (induction xs)
  case Nil
  then show ?case by (simp split: if_splits)
next
  case (Cons x xs)
  show ?case
  proof (cases "prefix sub (x # xs)")
    case True
    then show ?thesis using prefix_length_le by fastforce
  next
    case False
    with Cons show ?thesis by (auto simp: Let_def split: if_splits)
  qed
qed

lemma py_slice_from_shorter:
  "bytes_find xs EOI \<noteq> - 1 \<Longrightarrow> length (py_slice_from xs (bytes_find xs EOI + 2)) < length xs"
  using bytes_find_bounds[of xs EOI] by (auto simp: py_slice_from_def slice_bound_def EOI_def)

termination scan_loop
  apply (relation "measure (\<lambda>(sched, s). length (jpeg_data s))")
   apply simp
  apply (simp add: py_slice_from_shorter)
  done

text \<open>
  The outer loop (lines 41 to 73), over what the thread observes at each iteration:
  \<open>stop_event\<close> found set at the loop test, or the result of \<open>read(4096)\<close> (an empty
  chunk when the pipe is closed), or an exception raised by \<open>read\<close>. When the list ends
  the thread is waiting in \<open>read\<close>, and the result is the state it has reached.
\<close>

datatype reader_event = StopSet | Read bytes | ReadRaises

fun reader_loop :: "(nat \<Rightarrow> interference) \<Rightarrow> reader_state \<Rightarrow> reader_event list \<Rightarrow> reader_state" where
  "reader_loop sched s [] = s"
| "reader_loop sched s (StopSet # evs) = s"
| "reader_loop sched s (ReadRaises # evs) = s"
| "reader_loop sched s (Read chunk # evs) =
     (if chunk = [] then s
      else (let (raised, s') = scan_loop sched (s\<lparr>jpeg_data := jpeg_data s @ chunk\<rparr>)
            in if raised then s' else reader_loop sched s' evs))"






text \<open>
  The test of the inner loop, the frame it cuts out and the bytes it keeps, as functions
  of \<open>jpeg_data\<close> (lines 49 to 53 and 66).
\<close>

definition extraction_condition :: "bytes \<Rightarrow> bool" where
  "extraction_condition d \<longleftrightarrow>
     bytes_find d SOI \<noteq> - 1 \<and> bytes_find d EOI \<noteq> - 1 \<and> bytes_find d SOI < bytes_find d EOI"



text \<open>
  An end marker lies before the first start marker: \<open>end_index\<close> is found, and
  \<open>start_index\<close> is not found or is larger.
\<close>

definition stray_end_marker :: "bytes \<Rightarrow> bool" where
  "stray_end_marker d \<longleftrightarrow>
     bytes_find d EOI \<noteq> - 1 \<and> (bytes_find d SOI = - 1 \<or> bytes_find d EOI < bytes_find d SOI)"

text \<open>The producer puts the frames of a list one after the other; no consumer takes any.\<close>

definition put_all :: "'a list \<Rightarrow> 'a list \<Rightarrow> 'a list" where
  "put_all q fs = foldl (\<lambda>q f. snd (put_path no_interference q f)) q fs"

subsection \<open>Competing consumers\<close>

text \<open>
  Two consumers call \<open>frame_queue.get(timeout=0.5)\<close> (line 140 and line 201) on the same
  queue. The queue serialises the calls; the schedule lists which consumer's call comes
  next (\<open>True\<close>: the first consumer). A call that finds the queue empty returns nothing
  and the caller polls again.
\<close>

record 'a consumers =
  shared_queue :: "'a list"
  received_first :: "'a list"
  received_second :: "'a list"

fun concurrent_takes :: "bool list \<Rightarrow> 'a consumers \<Rightarrow> 'a consumers" where
  "concurrent_takes [] c = c"
| "concurrent_takes (who # sched) c =
     (case queue_get (shared_queue c) of
        Inl _ \<Rightarrow> concurrent_takes sched c
      | Inr (f, q') \<Rightarrow>
          concurrent_takes sched
            (if who then c\<lparr>shared_queue := q', received_first := received_first c @ [f]\<rparr>
             else c\<lparr>shared_queue := q', received_second := received_second c @ [f]\<rparr>))"

definition two_consumers :: "bool list \<Rightarrow> 'a list \<Rightarrow> 'a consumers" where
  "two_consumers sched q =
     concurrent_takes sched \<lparr>shared_queue = q, received_first = [], received_second = []\<rparr>"

subsection \<open>The OCR thread\<close>

text \<open>
  A Python \<open>str\<close> is the list of its code points. \<open>py_isspace\<close> is the whitespace that
  \<open>str.strip()\<close> removes.
\<close>

type_synonym py_str = "nat list"

definition py_isspace :: "nat \<Rightarrow> bool" where
  "py_isspace c \<longleftrightarrow>
     (0x09 \<le> c \<and> c \<le> 0x0D) \<or> (0x1C \<le> c \<and> c \<le> 0x20) \<or> c = 0x85 \<or> c = 0xA0 \<or>
     c = 0x1680 \<or> (0x2000 \<le> c \<and> c \<le> 0x200A) \<or> c = 0x2028 \<or> c = 0x2029 \<or>
     c = 0x202F \<or> c = 0x205F \<or> c = 0x3000"

definition py_strip :: "py_str \<Rightarrow> py_str" where
  "py_strip t = rev (dropWhile py_isspace (rev (dropWhile py_isspace t)))"

text \<open>
  What a consumer loop observes at one iteration: \<open>stop_event\<close> set at the loop test, or
  the outcome of \<open>frame_queue.get(timeout=0.5)\<close>.
\<close>

datatype take_event = Stopped | Empty | Taken frame | TakeRaises

text \<open>
  \<open>frame_count\<close> and the global \<open>latest_ocr_result\<close>. \<open>engine\<close> is the state of the world
  outside that recognition acts on (the recognition engine is a process of its own);
  \<open>sampled\<close> is the history of the frames that entered the recognition block (lines 206
  to 219), each with the value of \<open>frame_count\<close> at that moment.
\<close>

record 'e ocr_state =
  frame_count :: nat
  latest_ocr_result :: py_str
  sampled :: "(nat \<times> frame) list"
  engine :: 'e

text \<open>
  What the thread calls outside itself. \<open>recognition\<close> stands for lines 207 to 211
  (decoding the frame, the conversion to grey levels and \<open>pytesseract.image_to_string\<close>):
  from the state of the engine and the frame, the text or the exception one of them
  raises, and the new state of the engine. \<open>print_stdout\<close> is \<open>print\<close>: the exception it
  raises on a message, if any (a terminal that cannot encode the message, a closed
  stream). \<open>exn_str\<close> is \<open>str(e)\<close>.
\<close>

record 'e ocr_env =
  recognition :: "'e \<Rightarrow> frame \<Rightarrow> (py_exception + py_str) \<times> 'e"
  print_stdout :: "py_str \<Rightarrow> py_exception option"
  exn_str :: "py_exception \<Rightarrow> py_str"

definition result_message :: "py_str \<Rightarrow> py_str" where
  "result_message t = map of_char ''OCR Result: '' @ t"

definition no_text_message :: py_str where
  "no_text_message = map of_char ''OCR Result: No text detected.''"

definition failure_message :: "py_str \<Rightarrow> py_str" where
  "failure_message e = map of_char ''OCR Thread failed. Error: '' @ e"

text \<open>
  Lines 206 to 219, entered with \<open>frame_count\<close> already increased. Line 213 prints the
  text before line 214 stores it, inside the \<open>try\<close>: an exception of that \<open>print\<close> goes
  to the handler of line 218 and the text is not stored. The handler prints in its turn
  (line 219); the exception this \<open>print\<close> raises, if any, leaves the block.
\<close>

definition recognition_block ::
    "'e ocr_env \<Rightarrow> 'e ocr_state \<Rightarrow> frame \<Rightarrow> py_exception option \<times> 'e ocr_state" where
  "recognition_block env s frame =
     (let (result, eng) = recognition env (engine s) frame;
          s1 = s\<lparr>sampled := sampled s @ [(frame_count s, frame)], engine := eng\<rparr>;
          (raised, s2) =
            (case result of
               Inl e \<Rightarrow> (Some e, s1)
             | Inr txt \<Rightarrow>
                 if py_strip txt \<noteq> [] then
                   (case print_stdout env (result_message (py_strip txt)) of
                      Some e \<Rightarrow> (Some e, s1)
                    | None \<Rightarrow> (None, s1\<lparr>latest_ocr_result := py_strip txt\<rparr>))
                 else (print_stdout env no_text_message, s1))
      in case raised of
           None \<Rightarrow> (None, s2)
         | Some e \<Rightarrow> (print_stdout env (failure_message (exn_str env e)), s2))"

text \<open>
  Lines 198 to 227. An exception that leaves the recognition block, or one that \<open>get\<close>
  raises other than \<open>queue.Empty\<close>, reaches the handler of line 224, which ends the loop.
\<close>

fun ocr_loop :: "'e ocr_env \<Rightarrow> 'e ocr_state \<Rightarrow> take_event list \<Rightarrow> 'e ocr_state" where
  "ocr_loop env s [] = s"
| "ocr_loop env s (Stopped # evs) = s"
| "ocr_loop env s (Empty # evs) = ocr_loop env s evs"
| "ocr_loop env s (TakeRaises # evs) = s"
| "ocr_loop env s (Taken frame # evs) =
     (let s1 = s\<lparr>frame_count := frame_count s + 1\<rparr> in
      if frame_count s1 mod OCR_FRAME_INTERVAL = 0 then
        (case recognition_block env s1 frame of
           (None, s2) \<Rightarrow> ocr_loop env s2 evs
         | (Some e, s2) \<Rightarrow> s2)
      else ocr_loop env s1 evs)"

text \<open>\<open>ocr_thread_func\<close>, started with the engine in a given state.\<close>

definition ocr_thread_func :: "'e ocr_env \<Rightarrow> 'e \<Rightarrow> take_event list \<Rightarrow> 'e ocr_state" where
  "ocr_thread_func env e0 evs =
     ocr_loop env \<lparr>frame_count = 0, latest_ocr_result = [], sampled = [], engine = e0\<rparr> evs"

text \<open>The frames a consumer takes in a run, and the runs that no stop and no exception ends.\<close>

fun taken :: "take_event list \<Rightarrow> frame list" where
  "taken [] = []"
| "taken (Taken f # evs) = f # taken evs"
| "taken (e # evs) = taken evs"

fun uninterrupted :: "take_event list \<Rightarrow> bool" where
  "uninterrupted [] = True"
| "uninterrupted (Taken f # evs) = uninterrupted evs"
| "uninterrupted (Empty # evs) = uninterrupted evs"
| "uninterrupted (e # evs) = False"

text \<open>The test of line 205 on a frame and the count it was taken at.\<close>

definition selected :: "nat \<times> frame \<Rightarrow> bool" where
  "selected kf \<longleftrightarrow> fst kf mod OCR_FRAME_INTERVAL = 0"

text \<open>
  The state of the engine after it has recognised the frames of a list in order, and
  the frames that the test of line 205 selects among the first \<open>n\<close> frames taken after
  the count \<open>c\<close>, each with its count.
\<close>

definition engine_after :: "'e ocr_env \<Rightarrow> 'e \<Rightarrow> frame list \<Rightarrow> 'e" where
  "engine_after env e fs = foldl (\<lambda>e f. snd (recognition env e f)) e fs"

definition sampled_of :: "nat \<Rightarrow> nat \<Rightarrow> frame list \<Rightarrow> (nat \<times> frame) list" where
  "sampled_of c n fs = filter selected (zip [Suc c ..< Suc c + n] fs)"

text \<open>
  A terminal whose encoding is latin-1: \<open>print\<close> raises \<open>UnicodeEncodeError\<close> on a message
  with a code point above 255.
\<close>

definition latin1_stdout :: "py_str \<Rightarrow> py_exception option" where
  "latin1_stdout m = (if list_all (\<lambda>c. c < 256) m then None else Some UnicodeEncodeError)"

text \<open>
  An engine that reads, on every frame, the sign U+20AC between a space and a newline,
  with a given \<open>print\<close>; the text of the exception is ASCII.
\<close>

definition euro_engine :: "(py_str \<Rightarrow> py_exception option) \<Rightarrow> unit ocr_env" where
  "euro_engine out =
     \<lparr>recognition = (\<lambda>e f. (Inr [0x20, 0x20AC, 0x0A], e)),
      print_stdout = out,
      exn_str = (\<lambda>e. map of_char ''ordinal not in range(256)'')\<rparr>"

subsection \<open>The HTTP request handler\<close>

text \<open>
  \<open>do_GET\<close> drives the handler of \<open>http.server\<close> through \<open>send_response\<close>,
  \<open>send_header\<close>, \<open>end_headers\<close>, \<open>send_error\<close> and \<open>wfile.write\<close>. The state of a
  handler is the list of the calls that have succeeded. \<open>send_response\<close> and
  \<open>send_header\<close> only fill the header buffer; \<open>end_headers\<close> and \<open>wfile.write\<close> write
  to the socket, and \<open>send_error\<close> writes twice (its headers, then its page); a write
  fails once the client has gone: \<open>writes_left\<close>
  is the number of writes that still succeed (\<open>None\<close>: the client stays), and
  \<open>write_error\<close> the exception a failed write raises. (This is the handler's behaviour
  for a request of HTTP/1.0 or later; the request line decides that, not \<open>do_GET\<close>.)
\<close>

datatype http_call =
  Send_response nat | Send_header string string | End_headers | Write bytes
  | Send_error nat | Error_page nat

record handler =
  calls :: "http_call list"
  writes_left :: "nat option"
  write_error :: py_exception

type_synonym handler_op = "handler \<Rightarrow> py_exception option \<times> handler"

definition buffered :: "http_call \<Rightarrow> handler_op" where
  "buffered c h = (None, h\<lparr>calls := calls h @ [c]\<rparr>)"

definition written :: "http_call \<Rightarrow> handler_op" where
  "written c h =
     (case writes_left h of
        None \<Rightarrow> (None, h\<lparr>calls := calls h @ [c]\<rparr>)
      | Some 0 \<Rightarrow> (Some (write_error h), h)
      | Some (Suc k) \<Rightarrow> (None, h\<lparr>calls := calls h @ [c], writes_left := Some k\<rparr>))"

definition send_response :: "nat \<Rightarrow> handler_op" where
  "send_response code = buffered (Send_response code)"

definition send_header :: "string \<Rightarrow> string \<Rightarrow> handler_op" where
  "send_header keyword v = buffered (Send_header keyword v)"

definition end_headers :: handler_op where
  "end_headers = written End_headers"

definition wfile_write :: "bytes \<Rightarrow> handler_op" where
  "wfile_write b = written (Write b)"

text \<open>Statements in sequence: the first exception ends the sequence.\<close>

fun run_ops :: "handler_op list \<Rightarrow> handler_op" where
  "run_ops [] h = (None, h)"
| "run_ops (f # fs) h = (case f h of (None, h') \<Rightarrow> run_ops fs h' | (Some e, h') \<Rightarrow> (Some e, h'))"

text \<open>
  \<open>send_error(code)\<close> of \<open>http.server\<close>: it buffers the status line and its headers and
  sends them (\<open>Send_error\<close>, one write), then writes the page (\<open>Error_page\<close>, a second
  write).
\<close>

definition send_error :: "nat \<Rightarrow> handler_op" where
  "send_error code = run_ops [written (Send_error code), written (Error_page code)]"

definition crlf :: bytes where
  "crlf = [0x0D, 0x0A]"

definition ascii :: "string \<Rightarrow> bytes" where
  "ascii s = map of_char s"

text \<open>\<open>str(n)\<close> for a length: the decimal digits.\<close>

definition digit_char :: "nat \<Rightarrow> char" where
  "digit_char d = char_of (48 + d)"

function str_nat :: "nat \<Rightarrow> string" where
  "str_nat n = (if n < 10 then [digit_char n] else str_nat (n div 10) @ [digit_char (n mod 10)])"
  by pat_completeness auto
termination
  by (relation "measure id") auto

text \<open>\<open>s.encode('utf-8')\<close>; a surrogate code point cannot be encoded.\<close>

definition utf8_char :: "nat \<Rightarrow> bytes option" where
  "utf8_char c =
     (if c < 0x80 then Some [of_nat c]
      else if c < 0x800 then Some [of_nat (0xC0 + c div 0x40), of_nat (0x80 + c mod 0x40)]
      else if 0xD800 \<le> c \<and> c \<le> 0xDFFF then None
      else if c < 0x10000 then
        Some [of_nat (0xE0 + c div 0x1000), of_nat (0x80 + c div 0x40 mod 0x40),
              of_nat (0x80 + c mod 0x40)]
      else if c < 0x110000 then
        Some [of_nat (0xF0 + c div 0x40000), of_nat (0x80 + c div 0x1000 mod 0x40),
              of_nat (0x80 + c div 0x40 mod 0x40), of_nat (0x80 + c mod 0x40)]
      else None)"

fun encode_utf8 :: "py_str \<Rightarrow> bytes option" where
  "encode_utf8 [] = Some []"
| "encode_utf8 (c # cs) =
     (case utf8_char c of
        None \<Rightarrow> None
      | Some b \<Rightarrow> (case encode_utf8 cs of None \<Rightarrow> None | Some bs \<Rightarrow> Some (b @ bs)))"

text \<open>Lines 141 to 146: one part of the multipart stream.\<close>

definition write_part :: "frame \<Rightarrow> handler_op" where
  "write_part frame =
     run_ops [wfile_write (ascii MJPEG_BOUNDARY @ crlf),
              send_header ''Content-type'' ''image/jpeg'',
              send_header ''Content-length'' (str_nat (length frame)),
              end_headers,
              wfile_write frame,
              wfile_write crlf]"

text \<open>
  Lines 138 to 155. \<open>queue.Empty\<close> makes the loop sleep and go on; \<open>BrokenPipeError\<close> and
  every other exception leave the loop.
\<close>

fun stream_loop :: "handler \<Rightarrow> take_event list \<Rightarrow> handler" where
  "stream_loop h [] = h"
| "stream_loop h (Stopped # evs) = h"
| "stream_loop h (Empty # evs) = stream_loop h evs"
| "stream_loop h (TakeRaises # evs) = h"
| "stream_loop h (Taken frame # evs) =
     (case write_part frame h of
        (None, h') \<Rightarrow> stream_loop h' evs
      | (Some BrokenPipeError, h') \<Rightarrow> h'
      | (Some e, h') \<Rightarrow> h')"

text \<open>
  \<open>do_GET\<close>, with what it reads from outside as arguments: the page \<open>html_content\<close>, the
  value of the global \<open>latest_ocr_result\<close> at the request, and what the stream loop
  observes.
\<close>

definition do_GET :: "bytes \<Rightarrow> py_str \<Rightarrow> take_event list \<Rightarrow> string \<Rightarrow> handler_op" where
  "do_GET html_content ocr_result evs path h =
     (if path = ''/'' then
        run_ops [send_response 200,
                 send_header ''Content-type'' ''text/html'',
                 end_headers,
                 wfile_write html_content] h
      else if path = ''/stream.mjpeg'' then
        (case run_ops [send_response 200,
                       send_header ''Content-type''
                         (''multipart/x-mixed-replace; boundary='' @ MJPEG_BOUNDARY),
                       send_header ''Cache-Control'' ''no-cache, private'',
                       send_header ''Pragma'' ''no-cache'',
                       send_header ''Connection'' ''keep-alive'',
                       end_headers] h of
           (None, h') \<Rightarrow> (None, stream_loop h' evs)
         | (Some e, h') \<Rightarrow> (Some e, h'))
      else if path = ''/ocr.txt'' then
        (case run_ops [send_response 200,
                       send_header ''Content-type'' ''text/plain'',
                       send_header ''Cache-Control'' ''no-cache, no-store, must-revalidate'',
                       send_header ''Pragma'' ''no-cache'',
                       send_header ''Expires'' ''0'',
                       end_headers] h of
           (None, h') \<Rightarrow>
             (case encode_utf8 ocr_result of
                None \<Rightarrow> (Some UnicodeEncodeError, h')
              | Some body \<Rightarrow> wfile_write body h')
         | (Some e, h') \<Rightarrow> (Some e, h'))
      else run_ops [send_error 404, end_headers] h)"

text \<open>
  The bytes the calls put on the wire, as \<open>http.server\<close> sends them: a header line is
  \<open>keyword: value\<close> and CRLF, kept in the buffer until \<open>end_headers\<close> adds the blank line
  and sends the buffer. What \<open>send_response\<close> puts into the buffer (the status line and
  the \<open>Server\<close> and \<open>Date\<close> lines) and the page \<open>send_error\<close> sends are the library's, and
  are parameters here. \<open>send_error\<close> sends, with whatever the buffer holds, what
  \<open>send_response\<close> buffers for its code and the headers \<open>Connection\<close>, \<open>Content-Type\<close>
  and \<open>Content-Length\<close> of its page.
\<close>

fun wire_from :: "(nat \<Rightarrow> bytes) \<Rightarrow> (nat \<Rightarrow> bytes) \<Rightarrow> bytes \<Rightarrow> http_call list \<Rightarrow> bytes" where
  "wire_from head page buf [] = []"
| "wire_from head page buf (Send_response code # cs) = wire_from head page (buf @ head code) cs"
| "wire_from head page buf (Send_header keyword v # cs) =
     wire_from head page (buf @ ascii (keyword @ '': '' @ v) @ crlf) cs"
| "wire_from head page buf (End_headers # cs) = buf @ crlf @ wire_from head page [] cs"
| "wire_from head page buf (Write b # cs) = b @ wire_from head page buf cs"
| "wire_from head page buf (Send_error code # cs) =
     buf @ head code @
     ascii ''Connection: close'' @ crlf @
     ascii ''Content-Type: text/html;charset=utf-8'' @ crlf @
     ascii (''Content-Length: '' @ str_nat (length (page code))) @ crlf @
     crlf @ wire_from head page [] cs"
| "wire_from head page buf (Error_page code # cs) = page code @ wire_from head page buf cs"

definition wire :: "(nat \<Rightarrow> bytes) \<Rightarrow> (nat \<Rightarrow> bytes) \<Rightarrow> http_call list \<Rightarrow> bytes" where
  "wire head page cs = wire_from head page [] cs"

text \<open>The calls of a complete answer to \<open>GET /ocr.txt\<close> with a given body.\<close>

definition ocr_txt_calls :: "bytes \<Rightarrow> http_call list" where
  "ocr_txt_calls body =
     [Send_response 200,
      Send_header ''Content-type'' ''text/plain'',
      Send_header ''Cache-Control'' ''no-cache, no-store, must-revalidate'',
      Send_header ''Pragma'' ''no-cache'',
      Send_header ''Expires'' ''0'',
      End_headers,
      Write body]"

text \<open>
  The calls of one part (lines 141 to 146), the calls that open the answer to
  \<open>GET /stream.mjpeg\<close> (lines 131 to 136), and the bytes these put on the wire.
\<close>

definition part_calls :: "frame \<Rightarrow> http_call list" where
  "part_calls frame =
     [Write (ascii MJPEG_BOUNDARY @ crlf),
      Send_header ''Content-type'' ''image/jpeg'',
      Send_header ''Content-length'' (str_nat (length frame)),
      End_headers,
      Write frame,
      Write crlf]"

definition stream_head_calls :: "http_call list" where
  "stream_head_calls =
     [Send_response 200,
      Send_header ''Content-type'' ''multipart/x-mixed-replace; boundary=--FRAME--'',
      Send_header ''Cache-Control'' ''no-cache, private'',
      Send_header ''Pragma'' ''no-cache'',
      Send_header ''Connection'' ''keep-alive'',
      End_headers]"

definition stream_head_bytes :: "(nat \<Rightarrow> bytes) \<Rightarrow> bytes" where
  "stream_head_bytes head =
     head 200 @
     ascii ''Content-type: multipart/x-mixed-replace; boundary=--FRAME--'' @ crlf @
     ascii ''Cache-Control: no-cache, private'' @ crlf @
     ascii ''Pragma: no-cache'' @ crlf @
     ascii ''Connection: keep-alive'' @ crlf @
     crlf"

text \<open>One part of the stream as the client reads it, and the value of a decimal numeral.\<close>

definition part_bytes :: "frame \<Rightarrow> bytes" where
  "part_bytes frame =
     ascii MJPEG_BOUNDARY @ crlf @
     ascii ''Content-type: image/jpeg'' @ crlf @
     ascii (''Content-length: '' @ str_nat (length frame)) @ crlf @
     crlf @ frame @ crlf"

definition decimal_value :: "string \<Rightarrow> nat" where
  "decimal_value s = foldl (\<lambda>a c. 10 * a + (of_char c - 48)) 0 s"

subsection \<open>The web server thread\<close>

text \<open>
  \<open>httpd.serve_forever()\<close> handles requests until \<open>httpd.shutdown()\<close> sets the server's
  shutdown request; the flag is false when the loop starts, and the program never calls
  \<open>shutdown\<close>. A loop that does not end has no result.
\<close>

partial_function (option) serve_forever :: "bool \<Rightarrow> unit option" where
  "serve_forever shutdown_request =
     (if shutdown_request then Some () else serve_forever shutdown_request)"

text \<open>Lines 184 and 185: \<open>while not stop_event.is_set(): httpd.handle_request()\<close>.\<close>

partial_function (option) handle_requests :: "bool \<Rightarrow> unit option" where
  "handle_requests stop_event = (if stop_event then Some () else handle_requests stop_event)"

text \<open>
  \<open>web_server_thread_func\<close>: if the constructor of the server raises, the exception is
  caught and the thread ends; otherwise \<open>serve_forever\<close> runs, and the loop on
  \<open>stop_event\<close> after it. The result is \<open>Some ()\<close> when the thread ends.
\<close>

definition web_server_thread_func :: "bool \<Rightarrow> bool \<Rightarrow> unit option" where
  "web_server_thread_func server_created stop_event =
     (if server_created then
        (case serve_forever False of
           None \<Rightarrow> None
         | Some u \<Rightarrow> handle_requests stop_event)
      else Some ())"

subsection \<open>Teardown of the external processes\<close>

text \<open>
  Lines 354 to 387. What teardown observes of a child process: whether \<open>poll()\<close> finds it
  running, whether it exits within the wait after \<open>terminate()\<close>, and within the wait
  after \<open>kill()\<close>; whether its pipes exist; and whether, when teardown closes a pipe,
  another thread sits in a read on it that gets no byte (the reader thread in
  \<open>read(4096)\<close> on stdout, line 43; the logger thread in \<open>readline\<close> on stderr, line 300).
  A wait carries its timeout in seconds. Of the messages printed, only the one for a
  process that survives \<open>kill()\<close> is recorded.
\<close>

datatype process = Ffmpeg | Raspivid

record process_handle =
  running :: bool
  exits_after_terminate :: bool
  exits_after_kill :: bool
  has_stdout :: bool
  has_stderr :: bool
  stdout_read_pending :: bool
  stderr_read_pending :: bool

datatype action =
  Terminate process | Kill process | Wait process nat
  | Close_stdout process | Close_stderr process | Print string

text \<open>
  The outcome of a teardown: it returns after the actions listed, or it never returns
  from the last action listed.
\<close>

datatype teardown = Returns "action list" | Hangs "action list"

fun actions_of :: "teardown \<Rightarrow> action list" where
  "actions_of (Returns as) = as"
| "actions_of (Hangs as) = as"

text \<open>The process is still alive after both signals and both waits.\<close>

definition survives :: "process_handle \<Rightarrow> bool" where
  "survives p \<longleftrightarrow> running p \<and> \<not> exits_after_terminate p \<and> \<not> exits_after_kill p"

text \<open>
  Lines 355 to 370. \<open>close()\<close> of a pipe does not return while another thread sits in a
  read on it; the read ends when the process exits (end of file), so \<open>close()\<close> blocks
  for good only on a pipe of a process that survives.
\<close>

definition stop_ffmpeg :: "process_handle option \<Rightarrow> teardown" where
  "stop_ffmpeg ffmpeg_process =
     (case ffmpeg_process of
        None \<Rightarrow> Returns []
      | Some p \<Rightarrow>
          (let signals =
                 (if running p then
                    [Terminate Ffmpeg, Wait Ffmpeg 5] @
                    (if exits_after_terminate p then []
                     else [Kill Ffmpeg, Wait Ffmpeg 2] @
                          (if exits_after_kill p then []
                           else [Print ''FFmpeg could not be killed.'']))
                  else []);
               out = (if has_stdout p then [Close_stdout Ffmpeg] else [])
           in if has_stdout p \<and> survives p \<and> stdout_read_pending p then Hangs (signals @ out)
              else if has_stderr p \<and> survives p \<and> stderr_read_pending p then
                Hangs (signals @ out @ [Close_stderr Ffmpeg])
              else Returns (signals @ out @ (if has_stderr p then [Close_stderr Ffmpeg] else []))))"

text \<open>
  Lines 373 to 387. No thread of the program reads the stdout of raspivid (line 295 has
  closed it already when ffmpeg was started), so closing it returns.
\<close>

definition stop_raspivid :: "process_handle option \<Rightarrow> action list" where
  "stop_raspivid raspivid_process =
     (case raspivid_process of
        None \<Rightarrow> []
      | Some p \<Rightarrow>
          (if running p then
             [Terminate Raspivid, Wait Raspivid 5] @
             (if exits_after_terminate p then []
              else [Kill Raspivid, Wait Raspivid 2] @
                   (if exits_after_kill p then [] else [Print ''raspivid could not be killed.'']))
           else []) @
          (if has_stdout p then [Close_stdout Raspivid] else []))"

definition stop_processes :: "process_handle option \<Rightarrow> process_handle option \<Rightarrow> teardown" where
  "stop_processes ffmpeg_process raspivid_process =
     (case stop_ffmpeg ffmpeg_process of
        Hangs as \<Rightarrow> Hangs as
      | Returns as \<Rightarrow> Returns (as @ stop_raspivid raspivid_process))"

text \<open>Whether a teardown returns.\<close>

fun returns :: "teardown \<Rightarrow> bool" where
  "returns (Returns as) = True"
| "returns (Hangs as) = False"

text \<open>The signals and waits that concern one process, and the time spent in waits at most.\<close>

fun concerns :: "process \<Rightarrow> action \<Rightarrow> bool" where
  "concerns p (Terminate p') = (p = p')"
| "concerns p (Kill p') = (p = p')"
| "concerns p (Wait p' t) = (p = p')"
| "concerns p a = False"


section \<open>Properties of the frame reader\<close>

lemma bytes_find_nil [simp]: "bytes_find xs [] = 0"
  by (cases xs) auto

lemma bytes_find_append_found:
  "bytes_find xs sub \<noteq> - 1 \<Longrightarrow> bytes_find (xs @ ys) sub = bytes_find xs sub"
proof (induction xs)
  case Nil
  then show ?case by (simp split: if_splits)
next
  case (Cons x xs)
  show ?case
  proof (cases "prefix sub (x # xs)")
    case True
    then have "prefix sub ((x # xs) @ ys)" by (rule prefix_prefix)
    with True show ?thesis by simp
  next
    case False
    with Cons.prems have nf: "bytes_find xs sub \<noteq> - 1" by (auto simp: Let_def split: if_splits)
    from bytes_find_bounds[OF nf] have len: "length sub \<le> length (x # xs)" by simp
    have "\<not> prefix sub ((x # xs) @ ys)"
    proof
      assume "prefix sub ((x # xs) @ ys)"
      with len have "prefix sub (x # xs)"
        by (metis prefix_length_prefix prefixI)
      with False show False ..
    qed
    with False Cons.IH[OF nf] show ?thesis by (simp add: Let_def)
  qed
qed

declare scan_loop.simps [simp del]




lemma scan_loop_stop:
  "\<not> extraction_condition (jpeg_data s) \<Longrightarrow> scan_loop sched s = (False, s)"
  by (subst scan_loop.simps) (auto simp: Let_def extraction_condition_def)



















lemma bytes_find_append_new:
  "bytes_find d sub = - 1 \<Longrightarrow> bytes_find (d @ c) sub \<noteq> - 1
     \<Longrightarrow> int (length d) < bytes_find (d @ c) sub + int (length sub)"
proof (induction d)
  case Nil
  then have "sub \<noteq> []" by (auto split: if_splits)
  with bytes_find_bounds[OF Nil.prems(2)] show ?case by (cases sub) auto
next
  case (Cons x d)
  from Cons.prems(1) have np: "\<not> prefix sub (x # d)" and nf: "bytes_find d sub = - 1"
    using bytes_find_bounds[of d sub] by (auto simp: Let_def split: if_splits)
  show ?case
  proof (cases "prefix sub (x # d @ c)")
    case True
    have "length (x # d) < length sub"
    proof (rule ccontr)
      assume "\<not> length (x # d) < length sub"
      then have "length sub \<le> length (x # d)" by simp
      with True have "prefix sub (x # d)"
        by (metis append_Cons prefix_length_prefix prefixI)
      with np show False ..
    qed
    with True show ?thesis by simp
  next
    case False
    with Cons.prems(2) have nf': "bytes_find (d @ c) sub \<noteq> - 1"
      by (auto simp: Let_def split: if_splits)
    from Cons.IH[OF nf nf'] False nf' show ?thesis by (simp add: Let_def)
  qed
qed

lemma stray_end_marker_append:
  assumes "stray_end_marker d"
  shows "stray_end_marker (d @ c)"
proof -
  from assms have en: "bytes_find d EOI \<noteq> - 1" by (simp add: stray_end_marker_def)
  then have en': "bytes_find (d @ c) EOI = bytes_find d EOI" by (rule bytes_find_append_found)
  from bytes_find_bounds[OF en] have le: "bytes_find d EOI + 2 \<le> int (length d)"
    by (simp add: EOI_def) arith
  show ?thesis
  proof (cases "bytes_find d SOI = - 1")
    case False
    then have "bytes_find (d @ c) SOI = bytes_find d SOI" by (rule bytes_find_append_found)
    with assms False en' show ?thesis by (simp add: stray_end_marker_def)
  next
    case True
    show ?thesis
    proof (cases "bytes_find (d @ c) SOI = - 1")
      case True
      with en en' show ?thesis by (simp add: stray_end_marker_def)
    next
      case False
      from bytes_find_append_new[OF True False] have "int (length d) < bytes_find (d @ c) SOI + 2"
        by (simp add: SOI_def)
      with le en en' show ?thesis by (simp add: stray_end_marker_def)
    qed
  qed
qed

lemma stray_not_extractable:
  "stray_end_marker d \<Longrightarrow> \<not> extraction_condition d"
  by (auto simp: stray_end_marker_def extraction_condition_def)

lemma reader_loop_stray:
  assumes "stray_end_marker (jpeg_data s)" and "[] \<notin> set chunks"
  shows "reader_loop sched s (map Read chunks) = s\<lparr>jpeg_data := jpeg_data s @ concat chunks\<rparr>"
  using assms
proof (induction chunks arbitrary: s)
  case Nil
  then show ?case by simp
next
  case (Cons c cs)
  let ?sc = "s\<lparr>jpeg_data := jpeg_data s @ c\<rparr>"
  from Cons.prems(1) have st: "stray_end_marker (jpeg_data ?sc)"
    by (simp add: stray_end_marker_append)
  then have "scan_loop sched ?sc = (False, ?sc)"
    by (intro scan_loop_stop stray_not_extractable)
  moreover from Cons.prems(2) have "c \<noteq> []" and "[] \<notin> set cs" by auto
  ultimately show ?case using Cons.IH[OF st] by simp
qed

text \<open>
  C9. When an end marker lies in \<open>jpeg_data\<close> before the first start marker, the test of
  the inner loop stays false whatever chunks arrive: the reader extracts no frame, keeps
  every byte, and \<open>jpeg_data\<close> grows by the length of each chunk.
\<close>

theorem stray_end_marker_blocks_reader:
  assumes "stray_end_marker (jpeg_data s)" and "[] \<notin> set chunks"
  shows "\<not> extraction_condition (jpeg_data s @ concat chunks)
       \<and> reader_loop sched s (map Read chunks) = s\<lparr>jpeg_data := jpeg_data s @ concat chunks\<rparr>
       \<and> submitted (reader_loop sched s (map Read chunks)) = submitted s
       \<and> length (jpeg_data (reader_loop sched s (map Read chunks)))
           = length (jpeg_data s) + length (concat chunks)"
  using stray_not_extractable[OF stray_end_marker_append[OF assms(1), of "concat chunks"]]
    reader_loop_stray[OF assms, of sched]
  by simp

theorem stray_end_marker_blocks_reader_witness:
  "stray_end_marker (jpeg_data \<lparr>jpeg_data = [0xFF, 0xD9], frame_queue = [], submitted = []\<rparr>)
   \<and> reader_loop (\<lambda>n. no_interference) \<lparr>jpeg_data = [0xFF, 0xD9], frame_queue = [], submitted = []\<rparr>
        (map Read [[0xFF, 0xD8, 1, 0xFF], [0xD9, 0xFF, 0xD8, 2, 0xFF, 0xD9]])
      = \<lparr>jpeg_data = [0xFF, 0xD9, 0xFF, 0xD8, 1, 0xFF, 0xD9, 0xFF, 0xD8, 2, 0xFF, 0xD9],
         frame_queue = [], submitted = []\<rparr>"
proof -
  have st: "stray_end_marker (jpeg_data \<lparr>jpeg_data = [0xFF, 0xD9], frame_queue = [], submitted = []\<rparr>)"
    by (simp add: stray_end_marker_def SOI_def EOI_def)
  have ne: "[] \<notin> set [[0xFF, 0xD8, 1, 0xFF], [0xD9, 0xFF, 0xD8, 2, 0xFF, 0xD9 :: byte]]" by simp
  from stray_end_marker_blocks_reader[OF st ne, of "\<lambda>n. no_interference"] st
  show ?thesis by simp
qed

section \<open>Properties of the put path\<close>

lemma put_path_quiet:
  "length q \<le> FRAME_BUFFER_SIZE \<Longrightarrow>
   put_path no_interference q f =
     (None, if length q < FRAME_BUFFER_SIZE then q @ [f] else tl q @ [f])"
  by (cases q)
     (auto simp: put_path_def no_interference_def queue_put_def queue_get_nowait_def
        queue_put_nowait_def FRAME_BUFFER_SIZE_def Let_def)

lemma put_all_snoc: "put_all q (fs @ [f]) = snd (put_path no_interference (put_all q fs) f)"
  by (simp add: put_all_def)

lemma put_all_keeps_newest:
  "put_all [] fs = drop (length fs - FRAME_BUFFER_SIZE) fs"
proof (induction fs rule: rev_induct)
  case Nil
  then show ?case by (simp add: put_all_def)
next
  case (snoc f fs)
  have pos: "0 < FRAME_BUFFER_SIZE" by (simp add: FRAME_BUFFER_SIZE_def)
  from snoc have len: "length (put_all [] fs) \<le> FRAME_BUFFER_SIZE" by simp
  show ?case
  proof (cases "length fs < FRAME_BUFFER_SIZE")
    case True
    with snoc show ?thesis by (simp add: put_all_snoc put_path_quiet)
  next
    case False
    with pos have "Suc (length fs) - FRAME_BUFFER_SIZE = Suc (length fs - FRAME_BUFFER_SIZE)"
      by simp
    with False snoc pos show ?thesis
      using put_path_quiet[OF len, of f] by (simp add: put_all_snoc drop_Suc tl_drop)
  qed
qed

text \<open>
  C2. With capacity \<open>N = FRAME_BUFFER_SIZE\<close>: after the producer has put \<open>N + 1\<close> frames
  into the empty queue and no consumer has taken any, the queue holds exactly \<open>N\<close> frames,
  the last \<open>N\<close> put, in the order they were put; only the first one is gone.
\<close>

theorem drop_oldest_keeps_newest:
  assumes "length fs = FRAME_BUFFER_SIZE + 1"
  shows "put_all [] fs = tl fs \<and> length (put_all [] fs) = FRAME_BUFFER_SIZE
       \<and> fs = hd fs # put_all [] fs"
proof -
  from assms have ne: "fs \<noteq> []" by auto
  from assms have "put_all [] fs = drop 1 fs" by (simp add: put_all_keeps_newest)
  then have eq: "put_all [] fs = tl fs" by (simp add: drop_Suc)
  with assms ne show ?thesis by simp
qed

theorem drop_oldest_keeps_newest_witness:
  "length (map (\<lambda>n. [n]) [0..<21 :: nat]) = FRAME_BUFFER_SIZE + 1
   \<and> put_all [] (map (\<lambda>n. [n]) [0..<21 :: nat]) = map (\<lambda>n. [n]) [1..<21]"
proof -
  have len: "length (map (\<lambda>n. [n]) [0..<21 :: nat]) = FRAME_BUFFER_SIZE + 1"
    by (simp add: FRAME_BUFFER_SIZE_def)
  have "tl (map (\<lambda>n. [n]) [0..<21 :: nat]) = map (\<lambda>n. [n]) [1..<21]"
    by (simp add: upt_rec)
  with drop_oldest_keeps_newest[OF len] len show ?thesis by simp
qed

text \<open>
  C10. The put path can return without the new frame in the queue: when the queue is full,
  no consumer takes a frame during the timed \<open>put\<close>, and the consumers then empty the queue
  before \<open>get_nowait\<close> runs, \<open>get_nowait\<close> raises \<open>queue.Empty\<close>, which is caught, and the
  frame is dropped without an error.
\<close>

theorem put_path_can_lose_frame:
  assumes "length q = FRAME_BUFFER_SIZE" and "before_put i = 0" and "during_wait i = 0"
    and "length q \<le> before_get i"
  shows "put_path i q frame = (None, []) \<and> frame \<notin> set (snd (put_path i q frame))"
  using assms
  by (simp add: put_path_def queue_put_def queue_get_nowait_def Let_def)

theorem put_path_can_lose_frame_witness:
  "length (replicate 20 [0 :: byte]) = FRAME_BUFFER_SIZE
   \<and> put_path \<lparr>before_put = 0, during_wait = 0, before_get = 20, before_put_nowait = 0\<rparr>
        (replicate 20 [0]) [1 :: byte] = (None, [])"
proof -
  have len: "length (replicate 20 [0 :: byte]) = FRAME_BUFFER_SIZE"
    by (simp add: FRAME_BUFFER_SIZE_def)
  from put_path_can_lose_frame[OF len, of "\<lparr>before_put = 0, during_wait = 0, before_get = 20, before_put_nowait = 0\<rparr>" "[1]"] len
  show ?thesis by simp
qed

section \<open>Properties of the consumers\<close>

lemma concurrent_takes_conserves:
  "mset (received_first (concurrent_takes sched c)) + mset (received_second (concurrent_takes sched c))
     + mset (shared_queue (concurrent_takes sched c))
   = mset (received_first c) + mset (received_second c) + mset (shared_queue c)"
proof (induction sched arbitrary: c)
  case Nil
  then show ?case by simp
next
  case (Cons who sched)
  show ?case
  proof (cases "shared_queue c")
    case Nil
    with Cons show ?thesis by (simp add: queue_get_def)
  next
    case (Cons f q')
    with Cons.IH show ?thesis by (cases who) (simp_all add: queue_get_def)
  qed
qed

lemma concurrent_takes_drains:
  "length (shared_queue c) \<le> length sched \<Longrightarrow> shared_queue (concurrent_takes sched c) = []"
proof (induction sched arbitrary: c)
  case Nil
  then show ?case by simp
next
  case (Cons who sched)
  show ?case
  proof (cases "shared_queue c")
    case Nil
    with Cons.IH[of c] show ?thesis by (simp add: queue_get_def)
  next
    case (Cons f q')
    with Cons.prems Cons.IH show ?thesis by (cases who) (simp_all add: queue_get_def)
  qed
qed

text \<open>
  C5. Two consumers take from a queue of \<open>K\<close> frames, their calls in any order, until the
  queue is empty: between them they receive exactly the \<open>K\<close> frames, and no entry of the
  queue goes to both (\<open>take\<close> removes what it returns).
\<close>

theorem take_delivers_to_one_consumer:
  assumes "length q \<le> length sched"
  shows "mset (received_first (two_consumers sched q)) + mset (received_second (two_consumers sched q))
           = mset q
       \<and> length (received_first (two_consumers sched q)) + length (received_second (two_consumers sched q))
           = length q
       \<and> (distinct q \<longrightarrow>
            set (received_first (two_consumers sched q)) \<inter> set (received_second (two_consumers sched q)) = {})"
proof -
  let ?c = "\<lparr>shared_queue = q, received_first = [], received_second = []\<rparr>"
  let ?r = "two_consumers sched q"
  from concurrent_takes_drains[of ?c sched] assms have e: "shared_queue ?r = []"
    by (simp add: two_consumers_def)
  from concurrent_takes_conserves[of sched ?c] e
  have m: "mset (received_first ?r) + mset (received_second ?r) = mset q"
    by (simp add: two_consumers_def)
  then have "size (mset (received_first ?r) + mset (received_second ?r)) = size (mset q)" by simp
  then have l: "length (received_first ?r) + length (received_second ?r) = length q" by simp
  have "set (received_first ?r) \<inter> set (received_second ?r) = {}" if "distinct q"
  proof -
    from m have "mset (received_first ?r @ received_second ?r) = mset q" by simp
    with that have "distinct (received_first ?r @ received_second ?r)"
      by (metis mset_eq_imp_distinct_iff)
    then show ?thesis by simp
  qed
  with m l show ?thesis by blast
qed

theorem take_delivers_to_one_consumer_witness:
  "length [[1], [2], [3 :: byte]] \<le> length [True, False, False, True]
   \<and> distinct [[1], [2], [3 :: byte]]
   \<and> received_first (two_consumers [True, False, False, True] [[1], [2], [3 :: byte]]) = [[1]]
   \<and> received_second (two_consumers [True, False, False, True] [[1], [2], [3 :: byte]]) = [[2], [3]]
   \<and> set (received_first (two_consumers [True, False, False, True] [[1], [2], [3 :: byte]]))
       \<inter> set (received_second (two_consumers [True, False, False, True] [[1], [2], [3 :: byte]])) = {}"
proof -
  have len: "length [[1], [2], [3 :: byte]] \<le> length [True, False, False, True]" by simp
  have d: "distinct [[1], [2], [3 :: byte]]" by simp
  have a: "received_first (two_consumers [True, False, False, True] [[1], [2], [3 :: byte]]) = [[1]]"
    by (simp add: two_consumers_def queue_get_def)
  have b: "received_second (two_consumers [True, False, False, True] [[1], [2], [3 :: byte]]) = [[2], [3]]"
    by (simp add: two_consumers_def queue_get_def)
  from take_delivers_to_one_consumer[OF len] have
    "distinct [[1], [2], [3 :: byte]] \<longrightarrow>
       set (received_first (two_consumers [True, False, False, True] [[1], [2], [3 :: byte]]))
       \<inter> set (received_second (two_consumers [True, False, False, True] [[1], [2], [3 :: byte]])) = {}"
    by (rule conjunct2[THEN conjunct2])
  with d have "set (received_first (two_consumers [True, False, False, True] [[1], [2], [3 :: byte]]))
       \<inter> set (received_second (two_consumers [True, False, False, True] [[1], [2], [3 :: byte]])) = {}"
    by (rule rev_mp)
  with len d a b show ?thesis by (intro conjI)
qed

section \<open>Properties of the HTTP handler\<close>

declare str_nat.simps [simp del]

lemma write_part_connected:
  "writes_left h = None \<Longrightarrow> write_part f h = (None, h\<lparr>calls := calls h @ part_calls f\<rparr>)"
  by (simp add: write_part_def part_calls_def wfile_write_def send_header_def end_headers_def
      buffered_def written_def)

lemma write_part_gone:
  "writes_left h = Some 0 \<Longrightarrow> write_part f h = (Some (write_error h), h)"
  by (simp add: write_part_def wfile_write_def written_def)

lemma stream_loop_connected:
  "writes_left h = None \<Longrightarrow> uninterrupted evs \<Longrightarrow>
     stream_loop h evs = h\<lparr>calls := calls h @ concat (map part_calls (taken evs))\<rparr>"
proof (induction evs arbitrary: h)
  case Nil
  show ?case by simp
next
  case (Cons e evs)
  show ?case
  proof (cases e)
    case (Taken f)
    let ?h' = "h\<lparr>calls := calls h @ part_calls f\<rparr>"
    from Cons.prems have "writes_left ?h' = None" and "uninterrupted evs"
      by (simp_all add: Taken)
    from Cons.IH[OF this] Cons.prems(1) show ?thesis
      by (simp add: Taken write_part_connected)
  qed (use Cons in simp_all)
qed

lemma stream_loop_stopped:
  "stream_loop h (pre @ Stopped # post) = stream_loop h pre"
proof (induction h pre rule: stream_loop.induct)
  case (5 h frame evs)
  then show ?case by (auto split: prod.splits option.splits py_exception.splits)
qed simp_all

lemma stream_loop_gone:
  "writes_left h = Some 0 \<Longrightarrow> stream_loop h (Taken f # evs) = h"
  by (cases "write_error h") (simp_all add: write_part_gone)

lemma wire_part:
  "wire_from head page [] (part_calls f @ cs) = part_bytes f @ wire_from head page [] cs"
  by (simp add: part_calls_def part_bytes_def ascii_def)

lemma wire_parts:
  "wire_from head page [] (concat (map part_calls fs)) = concat (map part_bytes fs)"
  by (induction fs) (simp_all add: wire_part)

lemma wire_stream_head:
  "wire_from head page [] (stream_head_calls @ cs) = stream_head_bytes head @ wire_from head page [] cs"
  by (simp add: stream_head_calls_def stream_head_bytes_def ascii_def)

lemma decimal_value_snoc:
  "decimal_value (s @ [c]) = 10 * decimal_value s + (of_char c - 48)"
  by (simp add: decimal_value_def)

lemma decimal_value_str_nat: "decimal_value (str_nat n) = n"
proof (induction n rule: str_nat.induct)
  case (1 n)
  show ?case
  proof (cases "n < 10")
    case True
    then show ?thesis
      by (subst str_nat.simps) (simp add: decimal_value_def digit_char_def)
  next
    case False
    have "n mod 10 < 10" by simp
    then have "of_char (digit_char (n mod 10)) - 48 = n mod 10"
      by (simp add: digit_char_def)
    with False "1.IH" show ?thesis
      by (subst str_nat.simps) (simp add: decimal_value_snoc)
  qed
qed

lemma do_GET_stream_connected:
  assumes "writes_left h = None" and "uninterrupted evs"
  shows "do_GET html reg evs ''/stream.mjpeg'' h
       = (None, h\<lparr>calls := calls h @ stream_head_calls @ concat (map part_calls (taken evs))\<rparr>)"
proof -
  let ?h' = "h\<lparr>calls := calls h @ stream_head_calls\<rparr>"
  have "run_ops [send_response 200,
                 send_header ''Content-type''
                         (''multipart/x-mixed-replace; boundary='' @ MJPEG_BOUNDARY),
                       send_header ''Cache-Control'' ''no-cache, private'',
                       send_header ''Pragma'' ''no-cache'',
                       send_header ''Connection'' ''keep-alive'',
                       end_headers] h = (None, ?h')"
    using assms(1)
    by (simp add: send_response_def send_header_def end_headers_def buffered_def written_def
        stream_head_calls_def MJPEG_BOUNDARY_def)
  moreover have "stream_loop ?h' evs = ?h'\<lparr>calls := calls ?h' @ concat (map part_calls (taken evs))\<rparr>"
    using assms by (intro stream_loop_connected) simp_all
  ultimately show ?thesis by (simp add: do_GET_def)
qed

text \<open>
  C8. \<open>GET /stream.mjpeg\<close>, to a client that stays connected: the answer opens with status
  200, \<open>Content-type: multipart/x-mixed-replace; boundary=--FRAME--\<close> and the no-cache
  headers; then, for every frame the handler takes, in order, one part: the boundary
  line, \<open>Content-type: image/jpeg\<close>, \<open>Content-length\<close> with the decimal length of the
  frame, a blank line, the bytes of the frame and CRLF. The loop ends when \<open>stop_event\<close> is
  found set, and at the first frame after the client has gone.
\<close>

theorem stream_mjpeg_parts:
  assumes "writes_left h = None" and "calls h = []" and "uninterrupted evs"
  shows "do_GET html reg evs ''/stream.mjpeg'' h
           = (None, h\<lparr>calls := stream_head_calls @ concat (map part_calls (taken evs))\<rparr>)
       \<and> wire head page (calls (snd (do_GET html reg evs ''/stream.mjpeg'' h)))
           = stream_head_bytes head @ concat (map part_bytes (taken evs))
       \<and> decimal_value (str_nat (length f)) = length f
       \<and> stream_loop h1 (pre @ Stopped # post) = stream_loop h1 pre
       \<and> (writes_left h2 = Some 0 \<longrightarrow> stream_loop h2 (Taken f # post) = h2)"
proof -
  from do_GET_stream_connected[OF assms(1,3), of html reg] assms(2)
  have g: "do_GET html reg evs ''/stream.mjpeg'' h
           = (None, h\<lparr>calls := stream_head_calls @ concat (map part_calls (taken evs))\<rparr>)"
    by simp
  then have w: "wire head page (calls (snd (do_GET html reg evs ''/stream.mjpeg'' h)))
           = stream_head_bytes head @ concat (map part_bytes (taken evs))"
    by (simp add: wire_def wire_stream_head wire_parts)
  from g w decimal_value_str_nat[of "length f"] stream_loop_stopped[of h1 pre post]
    stream_loop_gone[of h2 f post]
  show ?thesis by (intro conjI impI)
qed

theorem stream_mjpeg_parts_witness:
  "writes_left \<lparr>calls = [], writes_left = None, write_error = BrokenPipeError\<rparr> = None
   \<and> calls \<lparr>calls = [], writes_left = None, write_error = BrokenPipeError\<rparr> = []
   \<and> uninterrupted [Taken [1, 2, 3], Empty, Taken [4]]
   \<and> writes_left \<lparr>calls = [], writes_left = Some 0, write_error = BrokenPipeError\<rparr> = Some 0
   \<and> wire (\<lambda>c. []) (\<lambda>c. [])
        (calls (snd (do_GET [] [] [Taken [1, 2, 3], Empty, Taken [4]] ''/stream.mjpeg''
           \<lparr>calls = [], writes_left = None, write_error = BrokenPipeError\<rparr>)))
       = stream_head_bytes (\<lambda>c. []) @ part_bytes [1, 2, 3] @ part_bytes [4]
   \<and> stream_loop \<lparr>calls = [], writes_left = Some 0, write_error = BrokenPipeError\<rparr> [Taken [1, 2, 3]]
       = \<lparr>calls = [], writes_left = Some 0, write_error = BrokenPipeError\<rparr>"
proof -
  let ?h = "\<lparr>calls = [], writes_left = None, write_error = BrokenPipeError\<rparr>"
  let ?h2 = "\<lparr>calls = [], writes_left = Some 0, write_error = BrokenPipeError\<rparr>"
  have a: "writes_left ?h = None" and b: "calls ?h = []"
    and c: "uninterrupted [Taken [1, 2, 3], Empty, Taken [4]]"
    and d: "writes_left ?h2 = Some 0"
    by simp_all
  note t = stream_mjpeg_parts[OF a b c, of "[]" "[]" "\<lambda>c. []" "\<lambda>c. []" "[1, 2, 3]" ?h "[]" "[]" ?h2]
  from t[THEN conjunct2, THEN conjunct1]
  have w: "wire (\<lambda>c. []) (\<lambda>c. [])
        (calls (snd (do_GET [] [] [Taken [1, 2, 3], Empty, Taken [4]] ''/stream.mjpeg'' ?h)))
       = stream_head_bytes (\<lambda>c. []) @ part_bytes [1, 2, 3] @ part_bytes [4]"
    by simp
  from t[THEN conjunct2, THEN conjunct2, THEN conjunct2, THEN conjunct2] d
  have g: "stream_loop ?h2 [Taken [1, 2, 3]] = ?h2" by (rule mp)
  from a b c d w g show ?thesis by (intro conjI)
qed

section \<open>Shutdown\<close>

lemma serve_forever_needs_shutdown:
  "serve_forever shutdown_request = Some u \<Longrightarrow> shutdown_request"
  by (rule serve_forever.raw_induct[where P = "\<lambda>b u. b"]) (auto split: if_splits)

lemma serve_forever_blocks: "serve_forever False = None"
proof (cases "serve_forever False")
  case (Some u)
  from serve_forever_needs_shutdown[OF this] show ?thesis by simp
qed simp

lemma handle_requests_stop: "handle_requests True = Some ()"
  by (subst handle_requests.simps) simp

text \<open>
  C3. Every worker loop tests \<open>stop_event\<close> at its head: the frame reader, the OCR thread
  and the stream handler leave their loop at the first test that finds the event set.
  The web server thread does not: \<open>serve_forever\<close> comes before its loop on \<open>stop_event\<close>
  and does not return, so with the server created the thread never ends, even when
  \<open>stop_event\<close> is set from the start.
\<close>

theorem web_server_thread_ignores_stop:
  "web_server_thread_func True True = None
   \<and> handle_requests True = Some ()
   \<and> reader_loop sched s (StopSet # evs) = s
   \<and> ocr_loop recognize os (Stopped # tevs) = os
   \<and> stream_loop h (Stopped # tevs) = h"
  by (simp add: web_server_thread_func_def serve_forever_blocks handle_requests_stop)

section \<open>Properties of the OCR thread\<close>

lemma zip_upt_Cons:
  "c < m \<Longrightarrow> zip [c ..< m] (x # xs) = (c, x) # zip [Suc c ..< m] xs"
  by (simp add: upt_conv_Cons)

lemma recognition_block_state:
  "frame_count (snd (recognition_block env s f)) = frame_count s"
  "sampled (snd (recognition_block env s f)) = sampled s @ [(frame_count s, f)]"
  "engine (snd (recognition_block env s f)) = snd (recognition env (engine s) f)"
  by (simp_all add: recognition_block_def Let_def split: prod.splits sum.splits option.splits)

lemma ocr_loop_skip:
  "Suc (frame_count s) mod OCR_FRAME_INTERVAL \<noteq> 0 \<Longrightarrow>
     ocr_loop env s (Taken f # evs) = ocr_loop env (s\<lparr>frame_count := Suc (frame_count s)\<rparr>) evs"
  by (simp add: Let_def)

lemma ocr_loop_sample:
  "Suc (frame_count s) mod OCR_FRAME_INTERVAL = 0 \<Longrightarrow>
     ocr_loop env s (Taken f # evs) =
       (case recognition_block env (s\<lparr>frame_count := Suc (frame_count s)\<rparr>) f of
          (None, s2) \<Rightarrow> ocr_loop env s2 evs
        | (Some e, s2) \<Rightarrow> s2)"
  by (simp add: Let_def)


lemma sampled_of_Suc:
  "sampled_of c (Suc n) (f # fs)
     = (if selected (Suc c, f) then [(Suc c, f)] else []) @ sampled_of (Suc c) n fs"
proof -
  have "zip [Suc c ..< Suc c + Suc n] (f # fs) = (Suc c, f) # zip [Suc (Suc c) ..< Suc (Suc c) + n] fs"
    using zip_upt_Cons[of "Suc c" "Suc c + Suc n" f fs] by simp
  then show ?thesis by (simp add: sampled_of_def)
qed

lemma sampled_of_0: "sampled_of c 0 fs = []"
  by (simp add: sampled_of_def)

lemma ocr_loop_Taken_cases:
  obtains s' where "frame_count s' = Suc (frame_count s)"
    and "sampled s' = sampled s @ (if selected (Suc (frame_count s), f) then [(Suc (frame_count s), f)] else [])"
    and "engine s' = (if selected (Suc (frame_count s), f) then snd (recognition env (engine s) f) else engine s)"
    and "ocr_loop env s (Taken f # evs) = ocr_loop env s' evs \<or> ocr_loop env s (Taken f # evs) = s'"
proof (cases "Suc (frame_count s) mod OCR_FRAME_INTERVAL = 0")
  case False
  let ?s' = "s\<lparr>frame_count := Suc (frame_count s)\<rparr>"
  from False have "\<not> selected (Suc (frame_count s), f)" by (simp add: selected_def)
  with ocr_loop_skip[OF False, of env f evs] that[of ?s'] show ?thesis by simp
next
  case True
  let ?s1 = "s\<lparr>frame_count := Suc (frame_count s)\<rparr>"
  let ?s' = "snd (recognition_block env ?s1 f)"
  from True have sel: "selected (Suc (frame_count s), f)" by (simp add: selected_def)
  have "ocr_loop env s (Taken f # evs) = ocr_loop env ?s' evs \<or> ocr_loop env s (Taken f # evs) = ?s'"
    unfolding ocr_loop_sample[OF True]
    by (cases "recognition_block env ?s1 f") (auto split: option.splits)
  with sel recognition_block_state[of env ?s1 f] that[of ?s'] show ?thesis by simp
qed

lemma ocr_loop_run:
  "\<exists>n \<le> length (taken evs).
     frame_count (ocr_loop env s evs) = frame_count s + n
   \<and> sampled (ocr_loop env s evs) = sampled s @ sampled_of (frame_count s) n (taken evs)
   \<and> engine (ocr_loop env s evs)
       = engine_after env (engine s) (map snd (sampled_of (frame_count s) n (taken evs)))"
proof (induction evs arbitrary: s)
  case Nil
  show ?case by (simp add: sampled_of_0 engine_after_def)
next
  case (Cons e evs)
  have stop: ?case if "ocr_loop env s (e # evs) = s"
    using that by (intro exI[of _ 0]) (simp add: sampled_of_0 engine_after_def)
  show ?case
  proof (cases e)
    case Stopped
    then show ?thesis by (intro stop) simp
  next
    case TakeRaises
    then show ?thesis by (intro stop) simp
  next
    case Empty
    with Cons.IH[of s] show ?thesis by simp
  next
    case (Taken f)
    let ?c = "frame_count s"
    let ?one = "if selected (Suc ?c, f) then [(Suc ?c, f)] else []"
    obtain s' where c: "frame_count s' = Suc ?c"
      and sm: "sampled s' = sampled s @ ?one"
      and en: "engine s' = (if selected (Suc ?c, f) then snd (recognition env (engine s) f) else engine s)"
      and r: "ocr_loop env s (Taken f # evs) = ocr_loop env s' evs \<or> ocr_loop env s (Taken f # evs) = s'"
      by (rule ocr_loop_Taken_cases)
    have en': "engine_after env (engine s') fs = engine_after env (engine s) (map snd ?one @ fs)" for fs
      using en by (simp add: engine_after_def)
    from r show ?thesis
    proof
      assume run: "ocr_loop env s (Taken f # evs) = ocr_loop env s' evs"
      from Cons.IH[of s'] obtain n where n: "n \<le> length (taken evs)"
        and 1: "frame_count (ocr_loop env s' evs) = frame_count s' + n"
        and 2: "sampled (ocr_loop env s' evs) = sampled s' @ sampled_of (frame_count s') n (taken evs)"
        and 3: "engine (ocr_loop env s' evs)
           = engine_after env (engine s') (map snd (sampled_of (frame_count s') n (taken evs)))"
        by blast
      show ?thesis
        unfolding Taken run
        apply (rule exI[of _ "Suc n"])
        using n 1 2 3 c sm en' by (simp add: sampled_of_Suc)
    next
      assume fin: "ocr_loop env s (Taken f # evs) = s'"
      show ?thesis
        unfolding Taken fin
        apply (rule exI[of _ "Suc 0"])
        using c sm en'[of "[]"] by (simp add: sampled_of_Suc sampled_of_0 engine_after_def)
    qed
  qed
qed

lemma zip_upt_nth:
  "n \<le> length xs \<Longrightarrow> zip [a ..< a + n] xs = map (\<lambda>i. (a + i, xs ! i)) [0 ..< n]"
  by (rule nth_equalityI) auto

lemma sample_positions:
  "filter (\<lambda>i. Suc i mod 30 = 0) [0 ..< 61] = [29, 59]"
  by code_simp

lemma sampled_of_61:
  assumes "61 \<le> length fs"
  shows "sampled_of 0 61 fs = [(30, fs ! 29), (60, fs ! 59)]"
proof -
  let ?g = "\<lambda>i. (Suc 0 + i, fs ! i)"
  have "sampled_of 0 61 fs = filter selected (map ?g [0 ..< 61])"
    unfolding sampled_of_def by (simp only: zip_upt_nth[OF assms])
  also have "\<dots> = map ?g (filter (\<lambda>i. Suc i mod 30 = 0) [0 ..< 61])"
    by (simp only: filter_map) (simp add: selected_def comp_def OCR_FRAME_INTERVAL_def)
  also have "\<dots> = [(30, fs ! 29), (60, fs ! 59)]"
    by (simp only: sample_positions) simp
  finally show ?thesis .
qed

lemma recognition_block_quiet:
  "(\<And>m. print_stdout env m = None) \<Longrightarrow>
     (case fst (recognition env (engine s) f) of Inl e \<Rightarrow> False | Inr t \<Rightarrow> True) \<Longrightarrow>
     fst (recognition_block env s f) = None"
  by (simp add: recognition_block_def Let_def split: prod.splits sum.splits)

lemma ocr_loop_quiet_count:
  assumes "\<And>m. print_stdout env m = None" and "uninterrupted evs"
  shows "frame_count (ocr_loop env s evs) = frame_count s + length (taken evs)"
  using assms(2)
proof (induction evs arbitrary: s)
  case Nil
  show ?case by simp
next
  case (Cons e evs)
  show ?case
  proof (cases e)
    case (Taken f)
    with Cons.prems have u: "uninterrupted evs" by simp
    show ?thesis
    proof (cases "Suc (frame_count s) mod OCR_FRAME_INTERVAL = 0")
      case False
      from Cons.IH[OF u, of "s\<lparr>frame_count := Suc (frame_count s)\<rparr>"] show ?thesis
        unfolding Taken ocr_loop_skip[OF False] by simp
    next
      case True
      let ?s1 = "s\<lparr>frame_count := Suc (frame_count s)\<rparr>"
      have "fst (recognition_block env ?s1 f) = None"
        using assms(1)
        by (simp add: recognition_block_def Let_def split: prod.splits sum.splits)
      then have "ocr_loop env s (Taken f # evs) = ocr_loop env (snd (recognition_block env ?s1 f)) evs"
        unfolding ocr_loop_sample[OF True] by (simp add: case_prod_beta)
      with Cons.IH[OF u, of "snd (recognition_block env ?s1 f)"] recognition_block_state(1)[of env ?s1 f]
      show ?thesis unfolding Taken by simp
    qed
  qed (use Cons in simp_all)
qed

lemma uninterrupted_map_Taken: "uninterrupted (map (\<lambda>n. Taken (g n)) xs)"
  by (induction xs) simp_all

lemma taken_map_Taken: "taken (map (\<lambda>n. Taken (g n)) xs) = map g xs"
  by (induction xs) simp_all

text \<open>
  C6. With \<open>OCR_FRAME_INTERVAL = 30\<close>, in every run of the OCR thread that takes 61 frames
  the recognition block is entered exactly twice, with the 30th and with the 60th frame
  taken: the engine ends in the state that recognising the 30th frame and then the 60th
  leaves it in, whatever the engine is. \<open>frame_count\<close> counts every frame taken, and a
  frame the modulus does not select changes nothing but the count.
\<close>

theorem sampling_every_30th:
  assumes "frame_count (ocr_thread_func env e0 evs) = 61"
  shows "sampled (ocr_thread_func env e0 evs) = [(30, taken evs ! 29), (60, taken evs ! 59)]
       \<and> engine (ocr_thread_func env e0 evs)
           = snd (recognition env (snd (recognition env e0 (taken evs ! 29))) (taken evs ! 59))
       \<and> (Suc (frame_count s) mod OCR_FRAME_INTERVAL \<noteq> 0 \<longrightarrow>
            ocr_loop env s [Taken f] = s\<lparr>frame_count := Suc (frame_count s)\<rparr>)"
proof -
  let ?s0 = "\<lparr>frame_count = 0, latest_ocr_result = [], sampled = [], engine = e0\<rparr>"
  from ocr_loop_run[of evs env ?s0] obtain n where n: "n \<le> length (taken evs)"
    and 1: "frame_count (ocr_thread_func env e0 evs) = n"
    and 2: "sampled (ocr_thread_func env e0 evs) = sampled_of 0 n (taken evs)"
    and 3: "engine (ocr_thread_func env e0 evs)
         = engine_after env e0 (map snd (sampled_of 0 n (taken evs)))"
    by (auto simp: ocr_thread_func_def)
  from 1 assms have n61: "n = 61" by simp
  with n have len: "61 \<le> length (taken evs)" by simp
  note so = sampled_of_61[OF len]
  from 2 n61 so have a: "sampled (ocr_thread_func env e0 evs) = [(30, taken evs ! 29), (60, taken evs ! 59)]"
    by simp
  from 3 n61 so have b: "engine (ocr_thread_func env e0 evs)
           = snd (recognition env (snd (recognition env e0 (taken evs ! 29))) (taken evs ! 59))"
    by (simp add: engine_after_def)
  have "ocr_loop env s [Taken f] = s\<lparr>frame_count := Suc (frame_count s)\<rparr>"
    if "Suc (frame_count s) mod OCR_FRAME_INTERVAL \<noteq> 0"
    using ocr_loop_skip[OF that, of env f "[]"] by simp
  with a b show ?thesis by (intro conjI impI)
qed

theorem sampling_every_30th_witness:
  "frame_count (ocr_thread_func
       \<lparr>recognition = (\<lambda>e f. (Inr [], e @ [f])), print_stdout = (\<lambda>m. None), exn_str = (\<lambda>e. [])\<rparr>
       [] (map (\<lambda>n. Taken [of_nat n]) [0 ..< 61])) = 61
   \<and> Suc (frame_count \<lparr>frame_count = 0, latest_ocr_result = [], sampled = [],
              engine = [] :: frame list\<rparr>)
        mod OCR_FRAME_INTERVAL \<noteq> 0
   \<and> sampled (ocr_thread_func
       \<lparr>recognition = (\<lambda>e f. (Inr [], e @ [f])), print_stdout = (\<lambda>m. None), exn_str = (\<lambda>e. [])\<rparr>
       [] (map (\<lambda>n. Taken [of_nat n]) [0 ..< 61])) = [(30, [29]), (60, [59])]
   \<and> engine (ocr_thread_func
       \<lparr>recognition = (\<lambda>e f. (Inr [], e @ [f])), print_stdout = (\<lambda>m. None), exn_str = (\<lambda>e. [])\<rparr>
       [] (map (\<lambda>n. Taken [of_nat n]) [0 ..< 61])) = [[29], [59]]
   \<and> ocr_loop
       \<lparr>recognition = (\<lambda>e f. (Inr [], e @ [f])), print_stdout = (\<lambda>m. None), exn_str = (\<lambda>e. [])\<rparr>
       \<lparr>frame_count = 0, latest_ocr_result = [], sampled = [], engine = []\<rparr> [Taken [7]]
       = \<lparr>frame_count = 1, latest_ocr_result = [], sampled = [], engine = []\<rparr>"
proof -
  let ?env = "\<lparr>recognition = (\<lambda>(e :: frame list) f. (Inr [] :: py_exception + py_str, e @ [f])),
      print_stdout = (\<lambda>m. None), exn_str = (\<lambda>e. [])\<rparr>"
  let ?evs = "map (\<lambda>n. Taken [of_nat n :: byte]) [0 ..< 61]"
  let ?s = "\<lparr>frame_count = 0, latest_ocr_result = [], sampled = [], engine = [] :: frame list\<rparr>"
  have q: "print_stdout ?env m = None" for m by simp
  have u: "uninterrupted ?evs" by (rule uninterrupted_map_Taken)
  from ocr_loop_quiet_count[of ?env ?evs ?s, OF q u]
  have h: "frame_count (ocr_thread_func ?env [] ?evs) = 61"
    by (simp add: ocr_thread_func_def taken_map_Taken)
  have m: "Suc (frame_count ?s) mod OCR_FRAME_INTERVAL \<noteq> 0" by (simp add: OCR_FRAME_INTERVAL_def)
  note t = sampling_every_30th[OF h, of ?s "[7]"]
  from t[THEN conjunct1] have a: "sampled (ocr_thread_func ?env [] ?evs) = [(30, [29]), (60, [59])]"
    by (simp add: taken_map_Taken)
  from t[THEN conjunct2, THEN conjunct1] have b: "engine (ocr_thread_func ?env [] ?evs) = [[29], [59]]"
    by (simp add: taken_map_Taken)
  from t[THEN conjunct2, THEN conjunct2] m
  have c: "ocr_loop ?env ?s [Taken [7]] = \<lparr>frame_count = 1, latest_ocr_result = [], sampled = [], engine = []\<rparr>"
    by simp
  from h m a b c show ?thesis by (intro conjI)
qed

lemma ocr_loop_skip_many:
  "frame_count s mod OCR_FRAME_INTERVAL + n < OCR_FRAME_INTERVAL \<Longrightarrow>
     ocr_loop env s (replicate n (Taken f) @ evs)
       = ocr_loop env (s\<lparr>frame_count := frame_count s + n\<rparr>) evs"
proof (induction n arbitrary: s)
  case 0
  show ?case by simp
next
  case (Suc n)
  from Suc.prems have ne: "Suc (frame_count s) mod OCR_FRAME_INTERVAL \<noteq> 0"
    by (metis Suc_lessD add_Suc_right less_add_Suc1 mod_Suc not_less_eq old.nat.distinct(2))
  from Suc.prems ne have "frame_count (s\<lparr>frame_count := Suc (frame_count s)\<rparr>) mod OCR_FRAME_INTERVAL + n < OCR_FRAME_INTERVAL"
    by (simp add: mod_Suc split: if_splits)
  from Suc.IH[OF this] show ?case
    using ocr_loop_skip[OF ne, of env f "replicate n (Taken f) @ evs"] by simp
qed

text \<open>The register changes only when recognition gives a text that is not empty after \<open>strip()\<close>.\<close>

lemma register_changes_only_on_text:
  "latest_ocr_result (snd (recognition_block env s f)) \<noteq> latest_ocr_result s \<Longrightarrow>
     \<exists>t. fst (recognition env (engine s) f) = Inr t \<and> py_strip t \<noteq> []
       \<and> print_stdout env (result_message (py_strip t)) = None
       \<and> latest_ocr_result (snd (recognition_block env s f)) = py_strip t"
  by (auto simp: recognition_block_def Let_def split: prod.splits sum.splits option.splits if_splits)

lemma register_stored_when_printed:
  "fst (recognition env (engine s) f) = Inr t \<Longrightarrow> py_strip t \<noteq> [] \<Longrightarrow>
   print_stdout env (result_message (py_strip t)) = None \<Longrightarrow>
     latest_ocr_result (snd (recognition_block env s f)) = py_strip t"
  by (auto simp: recognition_block_def Let_def split: prod.splits sum.splits option.splits if_splits)

lemma do_GET_ocr_txt:
  assumes "writes_left h = None" and "encode_utf8 reg = Some body"
  shows "do_GET html reg evs ''/ocr.txt'' h = (None, h\<lparr>calls := calls h @ ocr_txt_calls body\<rparr>)"
  using assms
  by (simp add: do_GET_def send_response_def send_header_def end_headers_def wfile_write_def
      buffered_def written_def ocr_txt_calls_def)

lemma strip_euro: "py_strip [0x20, 0x20AC, 0x0A] = [0x20AC]"
  by (simp add: py_strip_def py_isspace_def)

lemma euro_run:
  "latest_ocr_result (ocr_thread_func (euro_engine out) () (replicate 29 (Taken [0]) @ [Taken [1]]))
     = (if out (result_message [0x20AC]) = None then [0x20AC] else [])"
proof -
  let ?s0 = "\<lparr>frame_count = 0, latest_ocr_result = [], sampled = [], engine = ()\<rparr>"
  have "frame_count ?s0 mod OCR_FRAME_INTERVAL + 29 < OCR_FRAME_INTERVAL"
    by (simp add: OCR_FRAME_INTERVAL_def)
  from ocr_loop_skip_many[OF this, of "euro_engine out" "[0]" "[Taken [1]]"]
  show ?thesis
    by (simp add: ocr_thread_func_def Let_def OCR_FRAME_INTERVAL_def recognition_block_def
        euro_engine_def strip_euro split: option.splits)
qed

text \<open>
  C7. After a sampled frame is recognised as a text that is not empty after \<open>strip()\<close>,
  \<open>latest_ocr_result\<close> should hold that text and \<open>GET /ocr.txt\<close> return it. The program
  prints the text (line 213) before it stores it (line 214): on a terminal that cannot
  encode the text the \<open>print\<close> raises, the handler of line 218 catches the exception, and
  the text is never stored. Here the 30th frame is read as \<open>U+20AC\<close> on a latin-1
  terminal: the register stays empty and \<open>GET /ocr.txt\<close> answers 200 with an empty body;
  with a terminal that prints everything the same run stores the text.
\<close>

theorem print_failure_loses_result:
  "fst (recognition (euro_engine latin1_stdout) () [1]) = Inr [0x20, 0x20AC, 0x0A]
   \<and> py_strip [0x20, 0x20AC, 0x0A] = [0x20AC]
   \<and> latest_ocr_result (ocr_thread_func (euro_engine latin1_stdout) ()
        (replicate 29 (Taken [0]) @ [Taken [1]])) = []
   \<and> do_GET [] (latest_ocr_result (ocr_thread_func (euro_engine latin1_stdout) ()
        (replicate 29 (Taken [0]) @ [Taken [1]]))) [] ''/ocr.txt''
        \<lparr>calls = [], writes_left = None, write_error = BrokenPipeError\<rparr>
      = (None, \<lparr>calls = ocr_txt_calls [], writes_left = None, write_error = BrokenPipeError\<rparr>)
   \<and> latest_ocr_result (ocr_thread_func (euro_engine (\<lambda>m. None)) ()
        (replicate 29 (Taken [0]) @ [Taken [1]])) = [0x20AC]"
proof -
  have f: "latin1_stdout (result_message [0x20AC]) = Some UnicodeEncodeError"
    by (simp add: latin1_stdout_def result_message_def)
  have a: "latest_ocr_result (ocr_thread_func (euro_engine latin1_stdout) ()
        (replicate 29 (Taken [0]) @ [Taken [1]])) = []"
    by (simp add: euro_run f)
  have b: "latest_ocr_result (ocr_thread_func (euro_engine (\<lambda>m. None)) ()
        (replicate 29 (Taken [0]) @ [Taken [1]])) = [0x20AC]"
    by (simp add: euro_run)
  have h: "writes_left \<lparr>calls = [], writes_left = None, write_error = BrokenPipeError\<rparr> = None"
    by simp
  have e: "encode_utf8 [] = Some []" by simp
  from do_GET_ocr_txt[OF h e, of "[]" "[]"] a b strip_euro show ?thesis
    by (simp add: euro_engine_def)
qed

section \<open>Properties of the teardown\<close>






lemma no_cross_signals:
  "filter (concerns Raspivid) (actions_of (stop_ffmpeg f)) = []"
  "filter (concerns Ffmpeg) (stop_raspivid r) = []"
  by (simp_all add: stop_ffmpeg_def stop_raspivid_def Let_def split: option.splits)

lemma actions_of_stop_processes:
  "actions_of (stop_processes f r)
     = actions_of (stop_ffmpeg f) @ (if returns (stop_ffmpeg f) then stop_raspivid r else [])"
  by (cases "stop_ffmpeg f") (simp_all add: stop_processes_def)

lemma teardown_hangs_on_pipe_close:
  assumes "survives p"
    and "has_stdout p \<and> stdout_read_pending p \<or> has_stderr p \<and> stderr_read_pending p"
  shows "\<not> returns (stop_processes (Some p) (Some r))"
    and "filter (concerns Raspivid) (actions_of (stop_processes (Some p) (Some r))) = []"
proof -
  from assms have h: "\<not> returns (stop_ffmpeg (Some p))"
    by (auto simp: stop_ffmpeg_def Let_def)
  then show "\<not> returns (stop_processes (Some p) (Some r))"
    by (cases "stop_ffmpeg (Some p)") (simp_all add: stop_processes_def)
  from h show "filter (concerns Raspivid) (actions_of (stop_processes (Some p) (Some r))) = []"
    by (simp add: actions_of_stop_processes no_cross_signals)
qed




end
